theory Spec2Isabelle
  imports Main
begin

section \<open>The local cache of \<open>local.go\<close>\<close>

text \<open>
  The cache of \<open>local.go\<close> is a struct of configuration fields, a hash table of entry
  pointers, a replacement policy and three channels towards the goroutine
  \<open>processEntries\<close>. Entries are shared by pointer between the table, the policy and
  the channel messages, so the model keeps an explicit store \<open>heap\<close> from addresses to
  entries; the table, the policy and the channels hold addresses.

  Times are nanoseconds since the Unix epoch, as \<open>time.Time.UnixNano\<close> gives them, and
  durations are nanoseconds; both are \<open>int\<close>. The source computes
  \<open>now.Add(-d).UnixNano()\<close> only for \<open>d > 0\<close>, which is \<open>now - d\<close> as long as the
  instant is one \<open>UnixNano\<close> can represent (Go leaves the result undefined otherwise).
  Each operation takes the readings of \<open>currentTime()\<close> it makes as arguments.
\<close>

subsection \<open>Entries\<close>

type_synonym addr = nat

text \<open>
  Modelled from the spec: the entry type is declared outside \<open>local.go\<close>. The spec's
  data model gives it a key, a value, access and write timestamps and the two flags
  \<open>invalidated\<close> and \<open>loading\<close>. The stored hash and the policy's bookkeeping handles
  are left out: the table below is indexed by the key, whose hash \<open>sum(k)\<close> is a
  function of it.
\<close>

record ('k, 'v) entry =
  key :: 'k
  val :: 'v
  accessTime :: int
  writeTime :: int
  invalidated :: bool
  loading :: bool

subsection \<open>Failures, statistics calls and refresh tasks\<close>

text \<open>
  A call either panics (with the message of the source) or returns the loader's
  error; both are values of \<open>failure\<close>.
\<close>

datatype 'e failure = Panic string | LoaderError 'e

text \<open>
  The statistics counter is an interface the cache only calls into; the model logs the
  calls \<open>local.go\<close> makes, in order.
\<close>

datatype stat_call =
    RecordHits nat
  | RecordMisses nat
  | RecordEviction
  | RecordLoadSuccess int
  | RecordLoadError int

text \<open>
  \<open>refreshAsync\<close> starts \<open>refresh(en)\<close> either on a goroutine of its own or through the
  configured executor, which by its contract runs the closure some time after the call;
  the model logs the started closure with the way it was started.
\<close>

datatype runner = Goroutine | Executor

text \<open>
  The caller goes on while the started closure runs on its own, and nothing in
  \<open>local.go\<close> orders the two: an executor may run the closure within the call, and
  the scheduler may run a goroutine to its end before the caller's next statement.
  Each operation that can start a closure takes what happened to it as an argument:
  \<open>Later\<close> when the closure has not run by the time the caller goes on, and
  \<open>Inline start now\<close> when it has run to its end by then, reading the clock twice.
  The closure is taken as a whole: it has either not started or finished.
\<close>

datatype timing = Later | Inline int int

subsection \<open>The cache state\<close>

text \<open>
  The fields down to \<open>deleteEntry\<close> are those of the struct \<open>localCache\<close>. A listener
  or executor is a flag saying whether one is configured, and the calls of the removal
  listener are logged in \<open>removalCalls\<close>. The loader returns a value together with an
  optional error, as the Go function returns \<open>(Value, error)\<close>. A channel is the list of
  the messages sent and not yet received; a send on a full channel parks the sender
  until \<open>processEntries\<close> has taken a message, and the model describes the state once
  the send is accepted. \<open>heap\<close> and \<open>nextAddr\<close> are the store of entries and the next
  address \<open>newEntry\<close> allocates; \<open>tasks\<close> are the refresh closures started and not yet
  finished.
\<close>

record ('k, 'v, 'e) localCache =
  expireAfterAccess :: int
  expireAfterWrite :: int
  refreshAfterWrite :: int
  onRemoval :: bool
  loader :: "('k \<Rightarrow> 'v \<times> 'e option) option"
  exec :: bool
  stats :: "stat_call list"
  cache :: "('k \<times> addr) list"
  cap :: int
  entries :: "addr list"
  addEntry :: "addr list"
  hitEntry :: "addr list"
  deleteEntry :: "addr option list"
  heap :: "addr \<Rightarrow> ('k, 'v) entry"
  nextAddr :: addr
  tasks :: "(runner \<times> addr) list"
  removalCalls :: "('k \<times> 'v) list"

definition maximumCapacity :: int where
  "maximumCapacity = 2 ^ 30"

definition drainMax :: int where
  "drainMax = 16"

subsection \<open>Entry accessors\<close>

text \<open>
  Modelled from the spec: the getters and setters of the entry type are declared
  outside \<open>local.go\<close>. Each field is read and written atomically; a setter writes the
  field of the entry at the given address.
\<close>

definition setValue :: "addr \<Rightarrow> 'v \<Rightarrow> ('k, 'v, 'e) localCache \<Rightarrow> ('k, 'v, 'e) localCache" where
  "setValue en v c = c\<lparr>heap := (heap c)(en := (heap c en)\<lparr>val := v\<rparr>)\<rparr>"

definition setAccessTime :: "addr \<Rightarrow> int \<Rightarrow> ('k, 'v, 'e) localCache \<Rightarrow> ('k, 'v, 'e) localCache" where
  "setAccessTime en t c = c\<lparr>heap := (heap c)(en := (heap c en)\<lparr>accessTime := t\<rparr>)\<rparr>"

definition setWriteTime :: "addr \<Rightarrow> int \<Rightarrow> ('k, 'v, 'e) localCache \<Rightarrow> ('k, 'v, 'e) localCache" where
  "setWriteTime en t c = c\<lparr>heap := (heap c)(en := (heap c en)\<lparr>writeTime := t\<rparr>)\<rparr>"

definition setInvalidated :: "addr \<Rightarrow> bool \<Rightarrow> ('k, 'v, 'e) localCache \<Rightarrow> ('k, 'v, 'e) localCache" where
  "setInvalidated en b c = c\<lparr>heap := (heap c)(en := (heap c en)\<lparr>invalidated := b\<rparr>)\<rparr>"

text \<open>
  Modelled from the spec: \<open>setLoading\<close> is declared outside \<open>local.go\<close>. The spec has it
  atomically move the flag to the new value and report whether it did: the call
  returns false, and changes nothing, when the flag already has that value.
\<close>

definition setLoading :: "addr \<Rightarrow> bool \<Rightarrow> ('k, 'v, 'e) localCache \<Rightarrow> bool \<times> ('k, 'v, 'e) localCache" where
  "setLoading en b c =
     (if loading (heap c en) = b then (False, c)
      else (True, c\<lparr>heap := (heap c)(en := (heap c en)\<lparr>loading := b\<rparr>)\<rparr>))"

text \<open>
  Modelled from the spec: \<open>newEntry\<close> is declared outside \<open>local.go\<close>. It allocates an
  entry with the given key and value; the timestamps are zero and the flags false, as
  Go's zero values are.
\<close>

definition newEntry :: "'k \<Rightarrow> 'v \<Rightarrow> ('k, 'v, 'e) localCache \<Rightarrow> addr \<times> ('k, 'v, 'e) localCache" where
  "newEntry k v c =
     (nextAddr c,
      c\<lparr>heap := (heap c)(nextAddr c :=
           \<lparr>key = k, val = v, accessTime = 0, writeTime = 0,
            invalidated = False, loading = False\<rparr>),
        nextAddr := Suc (nextAddr c)\<rparr>)"

definition record_stat :: "stat_call \<Rightarrow> ('k, 'v, 'e) localCache \<Rightarrow> ('k, 'v, 'e) localCache" where
  "record_stat s c = c\<lparr>stats := stats c @ [s]\<rparr>"

subsection \<open>The hash table\<close>

text \<open>
  Modelled from the spec: the type \<open>cache\<close> of the hash table is declared outside
  \<open>local.go\<close>. The spec gives it \<open>get\<close>, \<open>get-or-set\<close> (which inserts the entry when
  its key is absent and otherwise returns the entry already there, changing nothing),
  \<open>delete\<close> (which removes the entry if it is the one present, by identity), \<open>walk\<close>
  and \<open>len\<close>. The table is an association list from keys to entry addresses.
\<close>

definition cache_get :: "('k \<times> addr) list \<Rightarrow> 'k \<Rightarrow> addr option" where
  "cache_get t k = map_of t k"

definition cache_len :: "('k \<times> addr) list \<Rightarrow> int" where
  "cache_len t = int (length (remdups (map fst t)))"

definition cache_getOrSet ::
  "addr \<Rightarrow> ('k, 'v, 'e) localCache \<Rightarrow> addr option \<times> ('k, 'v, 'e) localCache" where
  "cache_getOrSet en c =
     (case map_of (cache c) (key (heap c en)) of
        Some cen \<Rightarrow> (Some cen, c)
      | None \<Rightarrow> (None, c\<lparr>cache := cache c @ [(key (heap c en), en)]\<rparr>))"

definition cache_delete :: "addr \<Rightarrow> ('k, 'v, 'e) localCache \<Rightarrow> ('k, 'v, 'e) localCache" where
  "cache_delete en c =
     (if map_of (cache c) (key (heap c en)) = Some en
      then c\<lparr>cache := filter (\<lambda>p. fst p \<noteq> key (heap c en)) (cache c)\<rparr>
      else c)"

subsection \<open>Freshness\<close>

definition isExpired :: "('k, 'v, 'e) localCache \<Rightarrow> addr \<Rightarrow> int \<Rightarrow> bool" where
  "isExpired c en now =
     (if invalidated (heap c en) then True
      else if expireAfterAccess c > 0 \<and> accessTime (heap c en) < now - expireAfterAccess c
        then True
      else if expireAfterWrite c > 0 \<and> writeTime (heap c en) < now - expireAfterWrite c
        then True
      else False)"

definition needRefresh :: "('k, 'v, 'e) localCache \<Rightarrow> addr \<Rightarrow> int \<Rightarrow> bool" where
  "needRefresh c en now =
     (if loading (heap c en) then False
      else if refreshAfterWrite c > 0
        then (let tm = writeTime (heap c en)
              in if tm > 0 \<and> tm < now - refreshAfterWrite c then True else False)
      else False)"

subsection \<open>The facade\<close>

text \<open>
  \<open>GetIfPresent\<close> returns \<open>Some v\<close> for \<open>(v, true)\<close> and \<open>None\<close> for \<open>(nil, false)\<close>.
\<close>

definition GetIfPresent ::
  "('k, 'v, 'e) localCache \<Rightarrow> 'k \<Rightarrow> int \<Rightarrow> 'v option \<times> ('k, 'v, 'e) localCache" where
  "GetIfPresent c k now =
     (case cache_get (cache c) k of
        None \<Rightarrow> (None, record_stat (RecordMisses 1) c)
      | Some en \<Rightarrow>
          if isExpired c en now
          then (let c1 = record_stat (RecordMisses 1) c;
                    c2 = c1\<lparr>deleteEntry := deleteEntry c1 @ [Some en]\<rparr>
                in (None, c2))
          else (let c1 = record_stat (RecordHits 1) c;
                    c2 = setAccessTime en now c1;
                    c3 = c2\<lparr>hitEntry := hitEntry c2 @ [en]\<rparr>
                in (Some (val (heap c3 en)), c3)))"

definition Put :: "('k, 'v, 'e) localCache \<Rightarrow> 'k \<Rightarrow> 'v \<Rightarrow> int \<Rightarrow> ('k, 'v, 'e) localCache" where
  "Put c k v now =
     (case cache_get (cache c) k of
        None \<Rightarrow>
          (let (en, c1) = newEntry k v c;
               c2 = setWriteTime en now c1;
               c3 = setAccessTime en now c2;
               (en', c4) =
                 (if cap c3 = 0 \<or> cache_len (cache c3) < cap c3
                  then (case cache_getOrSet en c3 of
                          (Some cen, c') \<Rightarrow> (cen, setValue cen v c')
                        | (None, c') \<Rightarrow> (en, c'))
                  else (en, c3))
           in c4\<lparr>addEntry := addEntry c4 @ [en']\<rparr>)
      | Some en \<Rightarrow>
          (let c1 = setValue en v c;
               c2 = setWriteTime en now c1
           in c2\<lparr>addEntry := addEntry c2 @ [en]\<rparr>))"

definition Invalidate :: "('k, 'v, 'e) localCache \<Rightarrow> 'k \<Rightarrow> ('k, 'v, 'e) localCache" where
  "Invalidate c k =
     (case cache_get (cache c) k of
        None \<Rightarrow> c
      | Some en \<Rightarrow>
          (let c1 = setInvalidated en True c
           in c1\<lparr>deleteEntry := deleteEntry c1 @ [Some en]\<rparr>))"

text \<open>The message \<open>nil\<close> on \<open>deleteEntry\<close> is \<open>None\<close>.\<close>

definition InvalidateAll :: "('k, 'v, 'e) localCache \<Rightarrow> ('k, 'v, 'e) localCache" where
  "InvalidateAll c =
     (let c1 = fold (\<lambda>en. setInvalidated en True) (map snd (cache c)) c
      in c1\<lparr>deleteEntry := deleteEntry c1 @ [None]\<rparr>)"

subsection \<open>Loading and refreshing\<close>

definition loader_panic :: string where
  "loader_panic = ''cache loader function must be set''"

text \<open>
  \<open>load\<close> reads the clock before and after the loader: \<open>start\<close> and \<open>now\<close>.
  \<open>now.Sub(start)\<close> is the difference of the two readings.
\<close>

definition load ::
  "('k, 'v, 'e) localCache \<Rightarrow> 'k \<Rightarrow> int \<Rightarrow> int \<Rightarrow> ('e failure + 'v) \<times> ('k, 'v, 'e) localCache" where
  "load c k start now =
     (case loader c of
        None \<Rightarrow> (Inl (Panic loader_panic), c)
      | Some f \<Rightarrow>
          (let (v, err) = f k;
               loadTime = now - start
           in case err of
                Some e \<Rightarrow> (Inl (LoaderError e), record_stat (RecordLoadError loadTime) c)
              | None \<Rightarrow>
                  (let c1 = record_stat (RecordLoadSuccess loadTime) c;
                       (en, c2) = newEntry k v c1;
                       c3 = setWriteTime en now c2;
                       c4 = setAccessTime en now c3
                   in (Inr v, c4\<lparr>addEntry := addEntry c4 @ [en]\<rparr>))))"

text \<open>
  \<open>refresh\<close> is the body of a started closure. Its deferred \<open>setLoading(false)\<close> runs on
  every way out, also when calling a nil loader panics.
\<close>

definition refresh ::
  "('k, 'v, 'e) localCache \<Rightarrow> addr \<Rightarrow> int \<Rightarrow> int \<Rightarrow> ('e failure + unit) \<times> ('k, 'v, 'e) localCache" where
  "refresh c en start now =
     (case loader c of
        None \<Rightarrow> (Inl (Panic ''runtime error: invalid memory address or nil pointer dereference''),
                 snd (setLoading en False c))
      | Some f \<Rightarrow>
          (let (v, err) = f (key (heap c en));
               loadTime = now - start;
               c' = (case err of
                       None \<Rightarrow>
                         (let c1 = record_stat (RecordLoadSuccess loadTime) c;
                              c2 = setValue en v c1;
                              c3 = setWriteTime en now c2
                          in c3\<lparr>addEntry := addEntry c3 @ [en]\<rparr>)
                     | Some e \<Rightarrow> record_stat (RecordLoadError loadTime) c)
           in (Inr (), snd (setLoading en False c'))))"

text \<open>
  \<open>refreshAsync\<close> starts the closure when its \<open>setLoading(true)\<close> returned true. A
  closure that has not run yet is logged in \<open>tasks\<close>; one that has already run to its
  end has left the state \<open>refresh\<close> leaves.
\<close>

definition refreshAsync ::
  "('k, 'v, 'e) localCache \<Rightarrow> addr \<Rightarrow> timing \<Rightarrow> ('e failure + unit) \<times> ('k, 'v, 'e) localCache" where
  "refreshAsync c en tm =
     (if loader c = None then (Inl (Panic loader_panic), c)
      else (let (won, c1) = setLoading en True c
            in if won
               then (case tm of
                       Later \<Rightarrow>
                         (Inr (), c1\<lparr>tasks := tasks c1 @
                                    [(if exec c1 then Executor else Goroutine, en)]\<rparr>)
                     | Inline start now \<Rightarrow> refresh c1 en start now)
               else (Inr (), c1)))"

text \<open>
  \<open>Get\<close> reads the clock once when the key is present (\<open>t1\<close>) and, through \<open>load\<close>,
  twice when it is absent (\<open>t1\<close>, then \<open>t2\<close>). It reads the value it returns last, after
  \<open>refreshAsync\<close> has returned, so a closure that has run by then shows in it.
\<close>

definition Get ::
  "('k, 'v, 'e) localCache \<Rightarrow> 'k \<Rightarrow> int \<Rightarrow> int \<Rightarrow> timing \<Rightarrow>
     ('e failure + 'v) \<times> ('k, 'v, 'e) localCache" where
  "Get c k t1 t2 tm =
     (case cache_get (cache c) k of
        None \<Rightarrow> load (record_stat (RecordMisses 1) c) k t1 t2
      | Some en \<Rightarrow>
          if isExpired c en t1
          then (let c1 = record_stat (RecordMisses 1) c
                in if loader c1 = None
                   then (let c2 = c1\<lparr>deleteEntry := deleteEntry c1 @ [Some en]\<rparr>
                         in (Inr (val (heap c2 en)), c2))
                   else (let c2 = setAccessTime en t1 c1
                         in case refreshAsync c2 en tm of
                              (Inl p, c3) \<Rightarrow> (Inl p, c3)
                            | (Inr u, c3) \<Rightarrow> (Inr (val (heap c3 en)), c3)))
          else (let c1 = record_stat (RecordHits 1) c;
                    c2 = setAccessTime en t1 c1;
                    c3 = c2\<lparr>hitEntry := hitEntry c2 @ [en]\<rparr>
                in (Inr (val (heap c3 en)), c3)))"

definition Refresh ::
  "('k, 'v, 'e) localCache \<Rightarrow> 'k \<Rightarrow> int \<Rightarrow> int \<Rightarrow> timing \<Rightarrow>
     ('e failure + unit) \<times> ('k, 'v, 'e) localCache" where
  "Refresh c k t1 t2 tm =
     (if loader c = None then (Inr (), c)
      else (case cache_get (cache c) k of
              None \<Rightarrow> (case load c k t1 t2 of
                         (Inl (Panic m), c') \<Rightarrow> (Inl (Panic m), c')
                       | (r, c') \<Rightarrow> (Inr (), c'))
            | Some en \<Rightarrow> refreshAsync c en tm))"

subsection \<open>The policy and the sweep of expired entries\<close>

text \<open>
  Modelled from the spec: the policies are declared outside \<open>local.go\<close>. The model
  keeps the policy's ordering as the list \<open>entries\<close>, first the entry the policy takes
  for the least recently accessed. By the spec's contract \<open>remove\<close> takes the entry out
  of the ordering and of the hash table and returns it iff the policy held it, and
  \<open>walkAccess\<close> visits the entries in that order until the callback returns false.
\<close>

definition policy_remove ::
  "addr \<Rightarrow> ('k, 'v, 'e) localCache \<Rightarrow> addr option \<times> ('k, 'v, 'e) localCache" where
  "policy_remove en c =
     (if en \<in> set (entries c)
      then (Some en, cache_delete en (c\<lparr>entries := removeAll en (entries c)\<rparr>))
      else (None, c))"

fun walkAccess :: "(addr \<Rightarrow> 's \<Rightarrow> bool \<times> 's) \<Rightarrow> addr list \<Rightarrow> 's \<Rightarrow> 's" where
  "walkAccess f [] s = s"
| "walkAccess f (en # ens) s =
     (case f en s of (continue, s') \<Rightarrow> if continue then walkAccess f ens s' else s')"

definition remove :: "('k, 'v, 'e) localCache \<Rightarrow> addr \<Rightarrow> ('k, 'v, 'e) localCache" where
  "remove c en =
     (case policy_remove en c of
        (None, c1) \<Rightarrow> c1
      | (Some en', c1) \<Rightarrow>
          if onRemoval c1
          then c1\<lparr>removalCalls := removalCalls c1 @ [(key (heap c1 en'), val (heap c1 en'))]\<rparr>
          else c1)"

text \<open>
  The callback of \<open>expireEntries\<close> closes over the counter \<open>remain\<close>; the walk threads
  the counter together with the cache.
\<close>

definition expire_visit ::
  "int \<Rightarrow> addr \<Rightarrow> int \<times> ('k, 'v, 'e) localCache \<Rightarrow> bool \<times> int \<times> ('k, 'v, 'e) localCache" where
  "expire_visit expire en s =
     (case s of (remain, c) \<Rightarrow>
        if accessTime (heap c en) \<ge> expire then (False, remain, c)
        else (let c1 = remove c en;
                  c2 = record_stat RecordEviction c1;
                  remain' = remain - 1
              in (remain' > 0, remain', c2)))"

definition expireEntries :: "('k, 'v, 'e) localCache \<Rightarrow> int \<Rightarrow> ('k, 'v, 'e) localCache" where
  "expireEntries c now =
     (if expireAfterAccess c \<le> 0 then c
      else (let expire = now - expireAfterAccess c;
                remain = drainMax
            in snd (walkAccess (expire_visit expire) (entries c) (remain, c))))"

subsection \<open>Options\<close>

definition WithMaximumSize :: "int \<Rightarrow> ('k, 'v, 'e) localCache \<Rightarrow> ('k, 'v, 'e) localCache" where
  "WithMaximumSize n c =
     (let n1 = (if n < 0 then 0 else n);
          n2 = (if n1 > maximumCapacity then maximumCapacity else n1)
      in c\<lparr>cap := n2\<rparr>)"

definition WithRefreshAfterWrite :: "int \<Rightarrow> ('k, 'v, 'e) localCache \<Rightarrow> ('k, 'v, 'e) localCache" where
  "WithRefreshAfterWrite d c = c\<lparr>refreshAfterWrite := d\<rparr>"

subsection \<open>Concurrent calls of \<open>refreshAsync\<close>\<close>

text \<open>
  Goroutines calling \<open>refreshAsync(en)\<close> at once interleave at its two actions on shared
  state: the atomic \<open>setLoading(true)\<close>, and the start of the closure when that call
  returned true. A call is at \<open>Calling\<close> before the first action, at \<open>Won\<close> between the
  two, and at \<open>Returned\<close> afterwards. An event is one goroutine making its next action,
  or one started closure running \<open>refresh\<close> to its end, where the deferred
  \<open>setLoading(false)\<close> is its last action on the entry.
\<close>

datatype pc = Calling | Won | Returned

datatype event = Step nat | Finish nat int int

definition refreshAsync_step ::
  "addr \<Rightarrow> ('k, 'v, 'e) localCache \<Rightarrow> pc \<Rightarrow> ('k, 'v, 'e) localCache \<times> pc" where
  "refreshAsync_step en c p =
     (case p of
        Calling \<Rightarrow>
          if loader c = None then (c, Returned)
          else (let (won, c1) = setLoading en True c
                in (c1, if won then Won else Returned))
      | Won \<Rightarrow> (c\<lparr>tasks := tasks c @ [(if exec c then Executor else Goroutine, en)]\<rparr>, Returned)
      | Returned \<Rightarrow> (c, Returned))"

fun run_events ::
  "addr \<Rightarrow> event list \<Rightarrow> ('k, 'v, 'e) localCache \<times> pc list \<Rightarrow> ('k, 'v, 'e) localCache \<times> pc list" where
  "run_events en [] s = s"
| "run_events en (Step i # evs) (c, pcs) =
     (if i < length pcs
      then (case refreshAsync_step en c (pcs ! i) of
              (c', p') \<Rightarrow> run_events en evs (c', pcs[i := p']))
      else run_events en evs (c, pcs))"
| "run_events en (Finish j t1 t2 # evs) (c, pcs) =
     (if j < length (tasks c)
      then run_events en evs
             (snd (refresh (c\<lparr>tasks := take j (tasks c) @ drop (Suc j) (tasks c)\<rparr>)
                     (snd (tasks c ! j)) t1 t2), pcs)
      else run_events en evs (c, pcs))"

definition inflight :: "addr \<Rightarrow> ('k, 'v, 'e) localCache \<Rightarrow> nat" where
  "inflight en c = length (filter (\<lambda>t. snd t = en) (tasks c))"

text \<open>The calls that have won \<open>setLoading(true)\<close> and not yet started their closure.\<close>

definition winners :: "pc list \<Rightarrow> nat" where
  "winners pcs = length (filter (\<lambda>p. p = Won) pcs)"

subsection \<open>Example states\<close>

definition ex_entry :: "(nat, nat) entry" where
  "ex_entry = \<lparr>key = 1, val = 10, accessTime = 100, writeTime = 100,
               invalidated = False, loading = False\<rparr>"

definition ex_cache :: "(nat, nat, string) localCache" where
  "ex_cache =
     \<lparr>expireAfterAccess = 50, expireAfterWrite = 0, refreshAfterWrite = 0,
      onRemoval = True, loader = None, exec = False, stats = [],
      cache = [(1, 0)], cap = 1, entries = [0],
      addEntry = [], hitEntry = [], deleteEntry = [],
      heap = (\<lambda>a. ex_entry), nextAddr = 1, tasks = [], removalCalls = []\<rparr>"

definition ex_loader :: "nat \<Rightarrow> nat \<times> string option" where
  "ex_loader k = (k + 1, None)"

definition ex_failing :: "nat \<Rightarrow> nat \<times> string option" where
  "ex_failing k = (0, Some ''unavailable'')"

text \<open>
  Two states for the sweep: in \<open>ex_sweep\<close> the policy holds three entries, the first
  two last accessed at times 10 and 20; in \<open>ex_full\<close> it holds seventeen, all last
  accessed at time 100.
\<close>

definition ex_sweep :: "(nat, nat, string) localCache" where
  "ex_sweep =
     ex_cache\<lparr>cache := [(7, 0), (8, 1), (1, 2)], entries := [0, 1, 2],
       heap := (\<lambda>a. ex_entry)
         (0 := ex_entry\<lparr>key := 7, accessTime := 10\<rparr>,
          1 := ex_entry\<lparr>key := 8, accessTime := 20\<rparr>)\<rparr>"

definition ex_full :: "(nat, nat, string) localCache" where
  "ex_full =
     ex_cache\<lparr>onRemoval := False,
       entries := [0, 1, 2, 3, 4, 5, 6, 7, 8, 9, 10, 11, 12, 13, 14, 15, 16]\<rparr>"

section \<open>Properties\<close>

subsection \<open>What \<open>Put\<close> does to the state\<close>

lemma cache_get_append:
  "cache_get (t @ [(k, en)]) k' =
     (case cache_get t k' of Some en' \<Rightarrow> Some en' | None \<Rightarrow> if k' = k then Some en else None)"
  by (simp add: cache_get_def map_add_def split: option.splits)

lemma Put_absent_within_cap:
  assumes "cache_get (cache c) k = None" and "cap c = 0 \<or> cache_len (cache c) < cap c"
  shows "Put c k v now =
     c\<lparr>heap := (heap c)(nextAddr c :=
          \<lparr>key = k, val = v, accessTime = now, writeTime = now,
           invalidated = False, loading = False\<rparr>),
       nextAddr := Suc (nextAddr c),
       cache := cache c @ [(k, nextAddr c)],
       addEntry := addEntry c @ [nextAddr c]\<rparr>"
  using assms
  by (auto simp add: Put_def newEntry_def setWriteTime_def setAccessTime_def
      cache_getOrSet_def cache_get_def Let_def)

lemma Put_present:
  assumes "cache_get (cache c) k = Some en"
  shows "Put c k v now =
     c\<lparr>heap := (heap c)(en := (heap c en)\<lparr>val := v, writeTime := now\<rparr>),
       addEntry := addEntry c @ [en]\<rparr>"
  using assms
  by (simp add: Put_def setValue_def setWriteTime_def Let_def)

subsection \<open>Presence after put\<close>

text \<open>
  Claim C1, as stated, fails when the key is absent and the table is at capacity:
  \<open>Put\<close> then allocates the entry and sends it on \<open>addEntry\<close>, but the guard
  \<open>c.cap == 0 || c.cache.len() < c.cap\<close> keeps it out of the hash table, so the
  \<open>GetIfPresent\<close> that follows misses. In \<open>ex_cache\<close> the capacity is 1 and key 1 fills
  the table; key 2 is put at time 100 and looked up at time 100, when the new entry
  (at address 1) is not expired.
\<close>

theorem Put_then_GetIfPresent_counterexample:
  "cap ex_cache \<noteq> 0 \<and> cache_len (cache ex_cache) \<ge> cap ex_cache
   \<and> cache_get (cache ex_cache) 2 = None
   \<and> addEntry (Put ex_cache 2 20 100) = [1]
   \<and> \<not> isExpired (Put ex_cache 2 20 100) 1 100
   \<and> fst (GetIfPresent (Put ex_cache 2 20 100) 2 100) = None"
  by (simp add: ex_cache_def ex_entry_def Put_def GetIfPresent_def cache_get_def cache_len_def
      newEntry_def setWriteTime_def setAccessTime_def isExpired_def record_stat_def Let_def)

lemma Put_absent_at_cap:
  assumes "cache_get (cache c) k = None" and "cap c \<noteq> 0" and "cap c \<le> cache_len (cache c)"
  shows "Put c k v now =
     c\<lparr>heap := (heap c)(nextAddr c :=
          \<lparr>key = k, val = v, accessTime = now, writeTime = now,
           invalidated = False, loading = False\<rparr>),
       nextAddr := Suc (nextAddr c),
       addEntry := addEntry c @ [nextAddr c]\<rparr>"
  using assms
  by (simp add: Put_def newEntry_def setWriteTime_def setAccessTime_def Let_def)

text \<open>
  Claim C1, amended: when the key is present in the hash table, or it is absent and
  the table is within capacity (\<open>cap = 0\<close> or \<open>len < cap\<close>), a \<open>GetIfPresent\<close> right
  after \<open>Put c k v\<close> returns \<open>(v, true)\<close>, provided the entry the table holds for the key
  is not expired (not invalidated, and within the configured access and write
  expirations) at the time of the lookup. When the key is absent and the table is at
  capacity, \<open>Put\<close> leaves the hash table as it is and only sends the new entry on
  \<open>addEntry\<close>, and the lookup right after it returns not found.
\<close>

theorem Put_then_GetIfPresent:
  "((cache_get (cache c) k \<noteq> None \<or> cap c = 0 \<or> cache_len (cache c) < cap c)
      \<and> (\<forall>en. cache_get (cache (Put c k v t1)) k = Some en
                \<longrightarrow> \<not> isExpired (Put c k v t1) en t2)
      \<longrightarrow> fst (GetIfPresent (Put c k v t1) k t2) = Some v)
   \<and> (cache_get (cache c) k = None \<and> cap c \<noteq> 0 \<and> cap c \<le> cache_len (cache c)
      \<longrightarrow> cache (Put c k v t1) = cache c
          \<and> addEntry (Put c k v t1) = addEntry c @ [nextAddr c]
          \<and> fst (GetIfPresent (Put c k v t1) k t2) = None)"
proof (intro conjI impI)
  assume a: "(cache_get (cache c) k \<noteq> None \<or> cap c = 0 \<or> cache_len (cache c) < cap c)
      \<and> (\<forall>en. cache_get (cache (Put c k v t1)) k = Some en
                \<longrightarrow> \<not> isExpired (Put c k v t1) en t2)"
  show "fst (GetIfPresent (Put c k v t1) k t2) = Some v"
  proof (cases "cache_get (cache c) k")
    case None
    with a have cap: "cap c = 0 \<or> cache_len (cache c) < cap c" by simp
    note P = Put_absent_within_cap [OF None cap, of v t1]
    have g: "cache_get (cache (Put c k v t1)) k = Some (nextAddr c)"
      using None by (simp add: P cache_get_append)
    with a have "\<not> isExpired (Put c k v t1) (nextAddr c) t2" by simp
    with g show ?thesis
      by (simp add: GetIfPresent_def Let_def setAccessTime_def record_stat_def) (simp add: P)
  next
    case (Some en)
    note P = Put_present [OF Some, of v t1]
    have g: "cache_get (cache (Put c k v t1)) k = Some en"
      using Some by (simp add: P)
    with a have "\<not> isExpired (Put c k v t1) en t2" by simp
    with g show ?thesis
      by (simp add: GetIfPresent_def Let_def setAccessTime_def record_stat_def) (simp add: P)
  qed
next
  assume b: "cache_get (cache c) k = None \<and> cap c \<noteq> 0 \<and> cap c \<le> cache_len (cache c)"
  then have P: "Put c k v t1 =
     c\<lparr>heap := (heap c)(nextAddr c :=
          \<lparr>key = k, val = v, accessTime = t1, writeTime = t1,
           invalidated = False, loading = False\<rparr>),
       nextAddr := Suc (nextAddr c),
       addEntry := addEntry c @ [nextAddr c]\<rparr>"
    by (simp add: Put_absent_at_cap)
  show "cache (Put c k v t1) = cache c" by (simp add: P)
  show "addEntry (Put c k v t1) = addEntry c @ [nextAddr c]" by (simp add: P)
  show "fst (GetIfPresent (Put c k v t1) k t2) = None"
    using b by (simp add: P GetIfPresent_def)
qed

theorem Put_then_GetIfPresent_witness:
  "fst (GetIfPresent (Put ex_cache 1 20 100) 1 100) = Some 20
   \<and> fst (GetIfPresent (Put (ex_cache\<lparr>cap := 0\<rparr>) 2 20 100) 2 100) = Some 20
   \<and> cache (Put ex_cache 2 20 100) = [(1, 0)]"
proof -
  have a: "(cache_get (cache ex_cache) 1 \<noteq> None \<or> cap ex_cache = 0
            \<or> cache_len (cache ex_cache) < cap ex_cache)
         \<and> (\<forall>en. cache_get (cache (Put ex_cache 1 20 100)) 1 = Some en
             \<longrightarrow> \<not> isExpired (Put ex_cache 1 20 100) en 100)"
    by (simp add: ex_cache_def ex_entry_def Put_def cache_get_def setValue_def
        setWriteTime_def isExpired_def Let_def)
  have a': "(cache_get (cache (ex_cache\<lparr>cap := 0\<rparr>)) 2 \<noteq> None \<or> cap (ex_cache\<lparr>cap := 0\<rparr>) = 0
           \<or> cache_len (cache (ex_cache\<lparr>cap := 0\<rparr>)) < cap (ex_cache\<lparr>cap := 0\<rparr>))
         \<and> (\<forall>en. cache_get (cache (Put (ex_cache\<lparr>cap := 0\<rparr>) 2 20 100)) 2 = Some en
             \<longrightarrow> \<not> isExpired (Put (ex_cache\<lparr>cap := 0\<rparr>) 2 20 100) en 100)"
    by (simp add: ex_cache_def ex_entry_def Put_def cache_get_def newEntry_def
        setAccessTime_def setWriteTime_def isExpired_def cache_getOrSet_def Let_def)
  have b: "cache_get (cache ex_cache) 2 = None \<and> cap ex_cache \<noteq> 0
           \<and> cap ex_cache \<le> cache_len (cache ex_cache)"
    by (simp add: ex_cache_def cache_get_def cache_len_def)
  have "fst (GetIfPresent (Put ex_cache 1 20 100) 1 100) = Some 20"
    by (rule Put_then_GetIfPresent [THEN conjunct1, THEN mp, OF a])
  moreover have "fst (GetIfPresent (Put (ex_cache\<lparr>cap := 0\<rparr>) 2 20 100) 2 100) = Some 20"
    by (rule Put_then_GetIfPresent [THEN conjunct1, THEN mp, OF a'])
  moreover have "cache (Put ex_cache 2 20 100) = cache ex_cache"
    by (rule Put_then_GetIfPresent [THEN conjunct2, THEN mp, OF b, THEN conjunct1])
  ultimately show ?thesis by (simp add: ex_cache_def)
qed

subsection \<open>The freshness check\<close>

text \<open>
  Claim C2: an entry is expired at time \<open>t\<close> iff it is invalidated, or access expiry is
  on and its access time is before \<open>t - expireAfterAccess\<close>, or write expiry is on and
  its write time is before \<open>t - expireAfterWrite\<close>; otherwise it is fresh.
\<close>

theorem isExpired_iff:
  "isExpired c en t \<longleftrightarrow>
     (invalidated (heap c en)
      \<or> (expireAfterAccess c > 0 \<and> accessTime (heap c en) < t - expireAfterAccess c)
      \<or> (expireAfterWrite c > 0 \<and> writeTime (heap c en) < t - expireAfterWrite c))"
  by (simp add: isExpired_def)

theorem isExpired_iff_witness:
  "isExpired ex_cache 0 200 \<and> \<not> isExpired ex_cache 0 120"
  using isExpired_iff [of ex_cache 0 200] isExpired_iff [of ex_cache 0 120]
  by (simp add: ex_cache_def ex_entry_def)

subsection \<open>A failing load\<close>

text \<open>
  Claim C3: when the loader returns an error, \<open>load\<close> records a load error with the
  elapsed time and returns that error; the resulting state differs from the one
  before the call in the statistics log only, so no entry is allocated, no message
  is sent and the hash table is the same.
\<close>

theorem load_error_no_mutation:
  "loader c = Some f \<Longrightarrow> f k = (v, Some e) \<Longrightarrow>
   load c k start now =
     (Inl (LoaderError e), c\<lparr>stats := stats c @ [RecordLoadError (now - start)]\<rparr>)"
  by (simp add: load_def record_stat_def)

theorem load_error_no_mutation_witness:
  "load (ex_cache\<lparr>loader := Some ex_failing\<rparr>) 5 1000 1007 =
     (Inl (LoaderError ''unavailable''),
      ex_cache\<lparr>loader := Some ex_failing, stats := [RecordLoadError 7]\<rparr>)"
  using load_error_no_mutation [of "ex_cache\<lparr>loader := Some ex_failing\<rparr>" ex_failing 5 0
      "''unavailable''" 1000 1007]
  by (simp add: ex_cache_def ex_failing_def)

subsection \<open>Invalidation\<close>

lemma GetIfPresent_invalid:
  assumes "cache_get (cache c) k = Some en" and "invalidated (heap c en)"
  shows "GetIfPresent c k now =
     (None, c\<lparr>stats := stats c @ [RecordMisses 1], deleteEntry := deleteEntry c @ [Some en]\<rparr>)"
  using assms by (simp add: GetIfPresent_def isExpired_def record_stat_def Let_def)

lemma GetIfPresent_fold_invalid:
  assumes "cache_get (cache c) k = Some en" and "invalidated (heap c en)"
  shows "cache_get (cache (fold (\<lambda>t s. snd (GetIfPresent s k t)) nows c)) k = Some en
         \<and> invalidated (heap (fold (\<lambda>t s. snd (GetIfPresent s k t)) nows c) en)"
  using assms
proof (induction nows arbitrary: c)
  case Nil
  then show ?case by simp
next
  case (Cons t ts)
  have "cache_get (cache (snd (GetIfPresent c k t))) k = Some en"
    and "invalidated (heap (snd (GetIfPresent c k t)) en)"
    using Cons.prems by (simp_all add: GetIfPresent_invalid)
  then show ?case using Cons.IH by simp
qed

lemma Invalidate_present:
  assumes "cache_get (cache c) k = Some en"
  shows "Invalidate c k =
     c\<lparr>heap := (heap c)(en := (heap c en)\<lparr>invalidated := True\<rparr>),
       deleteEntry := deleteEntry c @ [Some en]\<rparr>"
  using assms by (simp add: Invalidate_def setInvalidated_def Let_def)

text \<open>
  Claim C4: for a key present in the hash table, \<open>Invalidate\<close> sets the entry's
  \<open>invalidated\<close> flag and sends the entry on \<open>deleteEntry\<close>, leaving the table as it
  is (no maintenance has run); from then on every \<open>GetIfPresent\<close> of the key, after any
  number of earlier ones at any times, returns not found and records a miss.
\<close>

theorem Invalidate_observable:
  assumes "cache_get (cache c) k = Some en"
  shows "invalidated (heap (Invalidate c k) en)
     \<and> deleteEntry (Invalidate c k) = deleteEntry c @ [Some en]
     \<and> cache (Invalidate c k) = cache c
     \<and> (\<forall>nows now. let c' = fold (\<lambda>t s. snd (GetIfPresent s k t)) nows (Invalidate c k)
          in fst (GetIfPresent c' k now) = None
             \<and> stats (snd (GetIfPresent c' k now)) = stats c' @ [RecordMisses 1])"
proof -
  have i: "cache_get (cache (Invalidate c k)) k = Some en"
    "invalidated (heap (Invalidate c k) en)"
    using assms by (simp_all add: Invalidate_present [OF assms])
  have "fst (GetIfPresent (fold (\<lambda>t s. snd (GetIfPresent s k t)) nows (Invalidate c k)) k now) = None
     \<and> stats (snd (GetIfPresent (fold (\<lambda>t s. snd (GetIfPresent s k t)) nows (Invalidate c k)) k now))
       = stats (fold (\<lambda>t s. snd (GetIfPresent s k t)) nows (Invalidate c k)) @ [RecordMisses 1]"
    for nows now
    using GetIfPresent_fold_invalid [OF i, of nows]
    by (simp add: GetIfPresent_invalid)
  then show ?thesis
    using i(2) by (simp add: Invalidate_present [OF assms] Let_def)
qed

theorem Invalidate_observable_witness:
  "invalidated (heap (Invalidate (ex_cache\<lparr>expireAfterAccess := 0\<rparr>) 1) 0)
   \<and> deleteEntry (Invalidate (ex_cache\<lparr>expireAfterAccess := 0\<rparr>) 1) = [Some 0]
   \<and> fst (GetIfPresent (ex_cache\<lparr>expireAfterAccess := 0\<rparr>) 1 100) = Some 10
   \<and> fst (GetIfPresent (Invalidate (ex_cache\<lparr>expireAfterAccess := 0\<rparr>) 1) 1 100) = None
   \<and> fst (GetIfPresent (snd (GetIfPresent (Invalidate (ex_cache\<lparr>expireAfterAccess := 0\<rparr>) 1) 1 100)) 1 101) = None"
proof -
  have p: "cache_get (cache (ex_cache\<lparr>expireAfterAccess := 0\<rparr>)) 1 = Some 0"
    by (simp add: ex_cache_def cache_get_def)
  have f: "fst (GetIfPresent (ex_cache\<lparr>expireAfterAccess := 0\<rparr>) 1 100) = Some 10"
    by (simp add: ex_cache_def ex_entry_def cache_get_def GetIfPresent_def isExpired_def
        setAccessTime_def record_stat_def Let_def)
  from Invalidate_observable [OF p]
  have "invalidated (heap (Invalidate (ex_cache\<lparr>expireAfterAccess := 0\<rparr>) 1) 0)"
    and "deleteEntry (Invalidate (ex_cache\<lparr>expireAfterAccess := 0\<rparr>) 1) =
           deleteEntry (ex_cache\<lparr>expireAfterAccess := 0\<rparr>) @ [Some 0]"
    and a: "\<forall>nows now.
          let c' = fold (\<lambda>t s. snd (GetIfPresent s 1 t)) nows
                     (Invalidate (ex_cache\<lparr>expireAfterAccess := 0\<rparr>) 1)
          in fst (GetIfPresent c' 1 now) = None
             \<and> stats (snd (GetIfPresent c' 1 now)) = stats c' @ [RecordMisses 1]"
    by blast+
  moreover from a [rule_format, of "[]" 100] a [rule_format, of "[100]" 101]
  have "fst (GetIfPresent (Invalidate (ex_cache\<lparr>expireAfterAccess := 0\<rparr>) 1) 1 100) = None"
    and "fst (GetIfPresent (snd (GetIfPresent (Invalidate (ex_cache\<lparr>expireAfterAccess := 0\<rparr>) 1) 1 100)) 1 101) = None"
    by (simp_all add: Let_def)
  ultimately show ?thesis using f by (simp add: ex_cache_def)
qed

subsection \<open>\<open>Get\<close> on an expired entry\<close>

lemma loading_upd_idem:
  "loading (e :: ('k, 'v) entry) \<Longrightarrow> e\<lparr>accessTime := t, loading := True\<rparr> = e\<lparr>accessTime := t\<rparr>"
  by simp

lemma refresh_success:
  assumes "loader c = Some f" and "f (key (heap c en)) = (v, None)" and "loading (heap c en)"
  shows "refresh c en s n =
     (Inr (), c\<lparr>stats := stats c @ [RecordLoadSuccess (n - s)],
                addEntry := addEntry c @ [en],
                heap := (heap c)(en := (heap c en)\<lparr>val := v, writeTime := n, loading := False\<rparr>)\<rparr>)"
  using assms
  by (simp add: refresh_def setLoading_def setValue_def setWriteTime_def record_stat_def Let_def)

lemma refresh_failure:
  assumes "loader c = Some f" and "f (key (heap c en)) = (v, Some e)" and "loading (heap c en)"
  shows "refresh c en s n =
     (Inr (), c\<lparr>stats := stats c @ [RecordLoadError (n - s)],
                heap := (heap c)(en := (heap c en)\<lparr>loading := False\<rparr>)\<rparr>)"
  using assms
  by (simp add: refresh_def setLoading_def record_stat_def Let_def)

lemma refresh_Inr: "loader c = Some f \<Longrightarrow> fst (refresh c en s n) = Inr ()"
  by (simp add: refresh_def Let_def split: prod.splits)

lemma refreshAsync_loading:
  "loader c = Some f \<Longrightarrow> loading (heap c en) \<Longrightarrow> refreshAsync c en tm = (Inr (), c)"
  by (simp add: refreshAsync_def setLoading_def)

lemma refreshAsync_later_won:
  "loader c = Some f \<Longrightarrow> \<not> loading (heap c en) \<Longrightarrow>
   refreshAsync c en Later =
     (Inr (), c\<lparr>heap := (heap c)(en := (heap c en)\<lparr>loading := True\<rparr>),
                tasks := tasks c @ [(if exec c then Executor else Goroutine, en)]\<rparr>)"
  by (simp add: refreshAsync_def setLoading_def)

lemma refreshAsync_inline_won:
  "loader c = Some f \<Longrightarrow> \<not> loading (heap c en) \<Longrightarrow>
   refreshAsync c en (Inline s n) =
     refresh (c\<lparr>heap := (heap c)(en := (heap c en)\<lparr>loading := True\<rparr>)\<rparr>) en s n"
  by (simp add: refreshAsync_def setLoading_def)

lemma refreshAsync_Inr:
  assumes "loader c = Some f"
  shows "fst (refreshAsync c en tm) = Inr ()"
proof (cases "loading (heap c en)")
  case True
  then show ?thesis by (simp add: refreshAsync_loading [OF assms])
next
  case False
  have "loader (c\<lparr>heap := (heap c)(en := (heap c en)\<lparr>loading := True\<rparr>)\<rparr>) = Some f"
    using assms by simp
  then show ?thesis
    using False
    by (cases tm)
      (simp_all add: refreshAsync_later_won [OF assms] refreshAsync_inline_won [OF assms]
        refresh_Inr)
qed

lemma Get_expired_loader:
  assumes "cache_get (cache c) k = Some en" and "isExpired c en t1" and "loader c = Some f"
  shows "Get c k t1 t2 tm =
     (Inr (val (heap (snd (refreshAsync (c\<lparr>stats := stats c @ [RecordMisses 1],
                heap := (heap c)(en := (heap c en)\<lparr>accessTime := t1\<rparr>)\<rparr>) en tm)) en)),
      snd (refreshAsync (c\<lparr>stats := stats c @ [RecordMisses 1],
                heap := (heap c)(en := (heap c en)\<lparr>accessTime := t1\<rparr>)\<rparr>) en tm))"
proof -
  let ?c2 = "c\<lparr>stats := stats c @ [RecordMisses 1],
               heap := (heap c)(en := (heap c en)\<lparr>accessTime := t1\<rparr>)\<rparr>"
  have l: "loader ?c2 = Some f" using assms(3) by simp
  obtain x c3 where r: "refreshAsync ?c2 en tm = (x, c3)"
    by (cases "refreshAsync ?c2 en tm")
  with refreshAsync_Inr [OF l, of en tm] have x: "x = Inr ()" by simp
  have G: "Get c k t1 t2 tm =
     (case refreshAsync ?c2 en tm of
        (Inl p, c3) \<Rightarrow> (Inl p, c3)
      | (Inr u, c3) \<Rightarrow> (Inr (val (heap c3 en)), c3))"
    using assms by (simp add: Get_def record_stat_def setAccessTime_def Let_def)
  show ?thesis unfolding G r x by simp
qed

text \<open>
  Claim C5, as stated, fails for the value returned when a loader is configured:
  \<open>Get\<close> reads the value after \<open>refreshAsync\<close> has started the closure, and an
  executor that runs the closure within the call (or a goroutine scheduled at once)
  has replaced the value by then. Here key 1 holds the value 10, its entry is expired
  at time 1000, the loader returns 2 for it and the executor runs the closure at
  once: \<open>Get\<close> returns 2, no closure is left to run and the flag \<open>loading\<close> is clear.
\<close>

theorem Get_expired_counterexample:
  "cache_get (cache (ex_cache\<lparr>loader := Some ex_loader, exec := True\<rparr>)) 1 = Some 0
   \<and> isExpired (ex_cache\<lparr>loader := Some ex_loader, exec := True\<rparr>) 0 1000
   \<and> val (heap (ex_cache\<lparr>loader := Some ex_loader, exec := True\<rparr>) 0) = 10
   \<and> fst (Get (ex_cache\<lparr>loader := Some ex_loader, exec := True\<rparr>) 1 1000 1001
            (Inline 1002 1003)) = Inr 2
   \<and> tasks (snd (Get (ex_cache\<lparr>loader := Some ex_loader, exec := True\<rparr>) 1 1000 1001
            (Inline 1002 1003))) = []
   \<and> \<not> loading (heap (snd (Get (ex_cache\<lparr>loader := Some ex_loader, exec := True\<rparr>) 1 1000 1001
            (Inline 1002 1003))) 0)"
  by (simp add: ex_cache_def ex_entry_def ex_loader_def cache_get_def isExpired_def Get_def
      refreshAsync_def refresh_def setLoading_def setAccessTime_def setValue_def
      setWriteTime_def record_stat_def Let_def)

text \<open>
  Claim C5, amended: for a key whose entry is present and expired, \<open>Get\<close> records a
  miss and returns with no error the value the entry holds when \<open>Get\<close> reads it, after
  the refresh has been triggered. Without a loader it sends the entry on \<open>deleteEntry\<close>,
  changes nothing else and returns the stale value. With a loader it sets the entry's
  access time to now and calls \<open>refreshAsync\<close>. When the closure has not run by the
  time \<open>Get\<close> reads the value, \<open>Get\<close> returns the stale value, with the flag \<open>loading\<close>
  set and the closure started unless the flag was set already. When the flag was set
  already no closure is started and \<open>Get\<close> returns the stale value. When the closure
  is started and has run to its end by then, \<open>Get\<close> returns the loader's value with the
  entry rewritten and sent on \<open>addEntry\<close> if the loader succeeded, and the stale value
  with a load error recorded if it failed; the flag is clear again in both cases.
\<close>

theorem Get_expired:
  assumes "cache_get (cache c) k = Some en" and "isExpired c en t1"
  shows "(loader c = None \<longrightarrow>
            Get c k t1 t2 tm =
              (Inr (val (heap c en)),
               c\<lparr>stats := stats c @ [RecordMisses 1],
                 deleteEntry := deleteEntry c @ [Some en]\<rparr>))
       \<and> (loader c \<noteq> None \<longrightarrow>
            Get c k t1 t2 Later =
              (Inr (val (heap c en)),
               c\<lparr>stats := stats c @ [RecordMisses 1],
                 heap := (heap c)(en := (heap c en)\<lparr>accessTime := t1, loading := True\<rparr>),
                 tasks := tasks c @
                   (if loading (heap c en) then []
                    else [(if exec c then Executor else Goroutine, en)])\<rparr>))
       \<and> (loader c \<noteq> None \<and> loading (heap c en) \<longrightarrow>
            Get c k t1 t2 tm =
              (Inr (val (heap c en)),
               c\<lparr>stats := stats c @ [RecordMisses 1],
                 heap := (heap c)(en := (heap c en)\<lparr>accessTime := t1\<rparr>)\<rparr>))
       \<and> (\<forall>f v. loader c = Some f \<and> \<not> loading (heap c en)
                 \<and> f (key (heap c en)) = (v, None) \<longrightarrow>
            Get c k t1 t2 (Inline s n) =
              (Inr v,
               c\<lparr>stats := stats c @ [RecordMisses 1, RecordLoadSuccess (n - s)],
                 addEntry := addEntry c @ [en],
                 heap := (heap c)(en := (heap c en)
                           \<lparr>accessTime := t1, val := v, writeTime := n, loading := False\<rparr>)\<rparr>))
       \<and> (\<forall>f v e. loader c = Some f \<and> \<not> loading (heap c en)
                 \<and> f (key (heap c en)) = (v, Some e) \<longrightarrow>
            Get c k t1 t2 (Inline s n) =
              (Inr (val (heap c en)),
               c\<lparr>stats := stats c @ [RecordMisses 1, RecordLoadError (n - s)],
                 heap := (heap c)(en := (heap c en)\<lparr>accessTime := t1, loading := False\<rparr>)\<rparr>))"
proof -
  let ?c2 = "c\<lparr>stats := stats c @ [RecordMisses 1],
               heap := (heap c)(en := (heap c en)\<lparr>accessTime := t1\<rparr>)\<rparr>"
  let ?c3 = "c\<lparr>stats := stats c @ [RecordMisses 1],
               heap := (heap c)(en := (heap c en)\<lparr>accessTime := t1, loading := True\<rparr>)\<rparr>"
  note g = Get_expired_loader [OF assms]
  have a: "Get c k t1 t2 tm =
      (Inr (val (heap c en)),
       c\<lparr>stats := stats c @ [RecordMisses 1], deleteEntry := deleteEntry c @ [Some en]\<rparr>)"
    if "loader c = None"
    using assms that by (simp add: Get_def record_stat_def Let_def)
  have c: "Get c k t1 t2 tm' = (Inr (val (heap c en)), ?c2)"
    if "loader c \<noteq> None \<and> loading (heap c en)" for tm'
  proof -
    from that obtain f where f: "loader c = Some f" by auto
    then have l: "loader ?c2 = Some f" by simp
    from that have "loading (heap ?c2 en)" by simp
    from refreshAsync_loading [OF l this, of tm'] show ?thesis
      unfolding g [OF f] by simp
  qed
  have b: "Get c k t1 t2 Later =
      (Inr (val (heap c en)),
       c\<lparr>stats := stats c @ [RecordMisses 1],
         heap := (heap c)(en := (heap c en)\<lparr>accessTime := t1, loading := True\<rparr>),
         tasks := tasks c @
           (if loading (heap c en) then []
            else [(if exec c then Executor else Goroutine, en)])\<rparr>)"
    if "loader c \<noteq> None"
  proof (cases "loading (heap c en)")
    case True
    with that c [of Later] show ?thesis by (simp add: loading_upd_idem)
  next
    case False
    from that obtain f where f: "loader c = Some f" by auto
    then have l: "loader ?c2 = Some f" by simp
    from False have "\<not> loading (heap ?c2 en)" by simp
    from refreshAsync_later_won [OF l this] False show ?thesis
      unfolding g [OF f] by simp
  qed
  have w: "refreshAsync ?c2 en (Inline s n) = refresh ?c3 en s n"
    if "loader c = Some f" and "\<not> loading (heap c en)" for f
  proof -
    from that have l: "loader ?c2 = Some f" and "\<not> loading (heap ?c2 en)" by simp_all
    from refreshAsync_inline_won [OF this, of s n] show ?thesis by simp
  qed
  have d: "Get c k t1 t2 (Inline s n) =
      (Inr v,
       c\<lparr>stats := stats c @ [RecordMisses 1, RecordLoadSuccess (n - s)],
         addEntry := addEntry c @ [en],
         heap := (heap c)(en := (heap c en)
                   \<lparr>accessTime := t1, val := v, writeTime := n, loading := False\<rparr>)\<rparr>)"
    if "loader c = Some f \<and> \<not> loading (heap c en) \<and> f (key (heap c en)) = (v, None)" for f v
  proof -
    from that have f: "loader c = Some f" and nl: "\<not> loading (heap c en)" by simp_all
    from that have "loader ?c3 = Some f" and "f (key (heap ?c3 en)) = (v, None)"
      and "loading (heap ?c3 en)" by simp_all
    from refresh_success [OF this, of s n] show ?thesis
      unfolding g [OF f] w [OF f nl] by simp
  qed
  have e: "Get c k t1 t2 (Inline s n) =
      (Inr (val (heap c en)),
       c\<lparr>stats := stats c @ [RecordMisses 1, RecordLoadError (n - s)],
         heap := (heap c)(en := (heap c en)\<lparr>accessTime := t1, loading := False\<rparr>)\<rparr>)"
    if "loader c = Some f \<and> \<not> loading (heap c en) \<and> f (key (heap c en)) = (v, Some e)"
    for f v e
  proof -
    from that have f: "loader c = Some f" and nl: "\<not> loading (heap c en)" by simp_all
    from that have "loader ?c3 = Some f" and "f (key (heap ?c3 en)) = (v, Some e)"
      and "loading (heap ?c3 en)" by simp_all
    from refresh_failure [OF this, of s n] show ?thesis
      unfolding g [OF f] w [OF f nl] by simp
  qed
  from a b c [of tm] d e show ?thesis by blast
qed

theorem Get_expired_witness:
  "isExpired ex_cache 0 1000
   \<and> Get ex_cache 1 1000 1001 Later =
       (Inr 10, ex_cache\<lparr>stats := [RecordMisses 1], deleteEntry := [Some 0]\<rparr>)
   \<and> Get (ex_cache\<lparr>loader := Some ex_loader\<rparr>) 1 1000 1001 Later =
       (Inr 10, ex_cache\<lparr>loader := Some ex_loader, stats := [RecordMisses 1],
                  heap := (\<lambda>a. ex_entry)(0 := ex_entry\<lparr>accessTime := 1000, loading := True\<rparr>),
                  tasks := [(Goroutine, 0)]\<rparr>)
   \<and> Get (ex_cache\<lparr>loader := Some ex_loader\<rparr>) 1 1000 1001 (Inline 1002 1005) =
       (Inr 2, ex_cache\<lparr>loader := Some ex_loader,
                 stats := [RecordMisses 1, RecordLoadSuccess 3],
                 heap := (\<lambda>a. ex_entry)(0 := ex_entry\<lparr>val := 2, accessTime := 1000,
                                                     writeTime := 1005\<rparr>),
                 addEntry := [0]\<rparr>)
   \<and> Get (ex_cache\<lparr>loader := Some ex_failing\<rparr>) 1 1000 1001 (Inline 1002 1005) =
       (Inr 10, ex_cache\<lparr>loader := Some ex_failing,
                  stats := [RecordMisses 1, RecordLoadError 3],
                  heap := (\<lambda>a. ex_entry)(0 := ex_entry\<lparr>accessTime := 1000\<rparr>)\<rparr>)"
proof -
  have p: "cache_get (cache ex_cache) 1 = Some 0"
    "cache_get (cache (ex_cache\<lparr>loader := Some ex_loader\<rparr>)) 1 = Some 0"
    "cache_get (cache (ex_cache\<lparr>loader := Some ex_failing\<rparr>)) 1 = Some 0"
    by (simp_all add: ex_cache_def cache_get_def)
  have e: "isExpired ex_cache 0 1000" "isExpired (ex_cache\<lparr>loader := Some ex_loader\<rparr>) 0 1000"
    "isExpired (ex_cache\<lparr>loader := Some ex_failing\<rparr>) 0 1000"
    by (simp_all add: ex_cache_def ex_entry_def isExpired_def)
  have a: "Get ex_cache 1 1000 1001 Later =
       (Inr 10, ex_cache\<lparr>stats := [RecordMisses 1], deleteEntry := [Some 0]\<rparr>)"
    using Get_expired [OF p(1) e(1), of 1001 Later 0 0, THEN conjunct1]
    by (simp add: ex_cache_def ex_entry_def)
  have b: "Get (ex_cache\<lparr>loader := Some ex_loader\<rparr>) 1 1000 1001 Later =
       (Inr 10, ex_cache\<lparr>loader := Some ex_loader, stats := [RecordMisses 1],
                  heap := (\<lambda>a. ex_entry)(0 := ex_entry\<lparr>accessTime := 1000, loading := True\<rparr>),
                  tasks := [(Goroutine, 0)]\<rparr>)"
    using Get_expired [OF p(2) e(2), of 1001 Later 0 0, THEN conjunct2, THEN conjunct1]
    by (simp add: ex_cache_def ex_entry_def)
  have c: "Get (ex_cache\<lparr>loader := Some ex_loader\<rparr>) 1 1000 1001 (Inline 1002 1005) =
       (Inr 2, ex_cache\<lparr>loader := Some ex_loader,
                 stats := [RecordMisses 1, RecordLoadSuccess 3],
                 heap := (\<lambda>a. ex_entry)(0 := ex_entry\<lparr>val := 2, accessTime := 1000,
                                                     writeTime := 1005\<rparr>),
                 addEntry := [0]\<rparr>)"
    using Get_expired [OF p(2) e(2), of 1001 Later 1002 1005, THEN conjunct2, THEN conjunct2,
        THEN conjunct2, THEN conjunct1, rule_format, of ex_loader 2]
    by (simp add: ex_cache_def ex_entry_def ex_loader_def)
  have d: "Get (ex_cache\<lparr>loader := Some ex_failing\<rparr>) 1 1000 1001 (Inline 1002 1005) =
       (Inr 10, ex_cache\<lparr>loader := Some ex_failing,
                  stats := [RecordMisses 1, RecordLoadError 3],
                  heap := (\<lambda>a. ex_entry)(0 := ex_entry\<lparr>accessTime := 1000\<rparr>)\<rparr>)"
    using Get_expired [OF p(3) e(3), of 1001 Later 1002 1005, THEN conjunct2, THEN conjunct2,
        THEN conjunct2, THEN conjunct2, rule_format, of ex_failing 0 "''unavailable''"]
    by (simp add: ex_cache_def ex_entry_def ex_failing_def)
  show ?thesis using e(1) a b c d by (intro conjI)
qed

subsection \<open>The maximum size\<close>

text \<open>
  Claim C9: \<open>WithMaximumSize\<close> turns every negative size into 0, which \<open>Put\<close> reads as
  unlimited, and every size above \<open>2^30\<close> into \<open>2^30\<close>; in a cache with capacity 0,
  \<open>Put\<close> on an absent key inserts the new entry into the hash table itself.
\<close>

theorem WithMaximumSize_normalizes:
  "(n < 0 \<longrightarrow> cap (WithMaximumSize n c) = 0)
   \<and> (n > 2 ^ 30 \<longrightarrow> cap (WithMaximumSize n c) = 2 ^ 30)
   \<and> (cap c' = 0 \<and> cache_get (cache c') k = None \<longrightarrow>
        cache (Put c' k v now) = cache c' @ [(k, nextAddr c')]
        \<and> cache_get (cache (Put c' k v now)) k = Some (nextAddr c')
        \<and> key (heap (Put c' k v now) (nextAddr c')) = k
        \<and> val (heap (Put c' k v now) (nextAddr c')) = v)"
  by (simp add: WithMaximumSize_def maximumCapacity_def Put_absent_within_cap cache_get_append)

theorem WithMaximumSize_normalizes_witness:
  "cap (WithMaximumSize (- 5) ex_cache) = 0
   \<and> cap (WithMaximumSize (2 ^ 30 + 1) ex_cache) = 2 ^ 30
   \<and> cache (Put (WithMaximumSize (- 5) ex_cache) 2 20 100) = [(1, 0), (2, 1)]
   \<and> cache_get (cache (Put (WithMaximumSize (- 5) ex_cache) 2 20 100)) 2 = Some 1
   \<and> val (heap (Put (WithMaximumSize (- 5) ex_cache) 2 20 100) 1) = 20"
  using WithMaximumSize_normalizes [of "- 5" ex_cache "WithMaximumSize (- 5) ex_cache" 2 20 100]
    WithMaximumSize_normalizes [of "2 ^ 30 + 1" ex_cache "WithMaximumSize (- 5) ex_cache" 2 20 100]
  by (simp add: WithMaximumSize_def ex_cache_def maximumCapacity_def cache_get_def)

subsection \<open>\<open>Get\<close> without a loader\<close>

text \<open>
  Claim C10: in a cache with no loader, \<open>Get\<close> of a key absent from the hash table
  (whatever the timing argument, which only a started closure reads) records the miss and then panics in \<open>load\<close> with the message
  \<open>cache loader function must be set\<close>; it returns no error value. The check
  \<open>c.loader == nil\<close> of \<open>Get\<close> covers the present key only, for which \<open>Get\<close> returns
  a value.
\<close>

theorem Get_absent_no_loader_panics:
  "loader c = None \<Longrightarrow>
   (cache_get (cache c) k = None \<longrightarrow>
      Get c k t1 t2 tm =
        (Inl (Panic ''cache loader function must be set''),
         c\<lparr>stats := stats c @ [RecordMisses 1]\<rparr>))
   \<and> (\<forall>en. cache_get (cache c) k = Some en \<longrightarrow> (\<exists>v. fst (Get c k t1 t2 tm) = Inr v))"
  by (simp add: Get_def load_def record_stat_def loader_panic_def Let_def)

theorem Get_absent_no_loader_panics_witness:
  "Get ex_cache 2 1000 1001 Later =
     (Inl (Panic ''cache loader function must be set''),
      ex_cache\<lparr>stats := [RecordMisses 1]\<rparr>)
   \<and> isExpired ex_cache 0 1000 \<and> fst (Get ex_cache 1 1000 1001 Later) = Inr 10"
  using Get_absent_no_loader_panics [of ex_cache 2 1000 1001 Later]
  by (simp add: ex_cache_def ex_entry_def cache_get_def isExpired_def Get_def record_stat_def)

subsection \<open>The refresh-after-write setting\<close>

text \<open>
  The lemmas \<open>raw_*\<close> move the option \<open>WithRefreshAfterWrite\<close> (raw for short) through
  each operation.
\<close>

lemma raw_fields:
  "cache (WithRefreshAfterWrite d c) = cache c"
  "loader (WithRefreshAfterWrite d c) = loader c"
  "heap (WithRefreshAfterWrite d c) = heap c"
  "isExpired (WithRefreshAfterWrite d c) en t = isExpired c en t"
  "record_stat s (WithRefreshAfterWrite d c) = WithRefreshAfterWrite d (record_stat s c)"
  "setAccessTime en t (WithRefreshAfterWrite d c) = WithRefreshAfterWrite d (setAccessTime en t c)"
  by (simp_all add: WithRefreshAfterWrite_def isExpired_def record_stat_def setAccessTime_def)

lemma raw_GetIfPresent:
  "GetIfPresent (WithRefreshAfterWrite d c) k now =
     (fst (GetIfPresent c k now), WithRefreshAfterWrite d (snd (GetIfPresent c k now)))"
proof (cases "cache_get (cache c) k")
  case None
  then show ?thesis by (simp add: GetIfPresent_def raw_fields)
next
  case (Some en)
  then show ?thesis
    by (cases "isExpired c en now")
      (simp_all add: GetIfPresent_def raw_fields Let_def, simp_all add: WithRefreshAfterWrite_def)
qed

lemma raw_Put:
  "Put (WithRefreshAfterWrite d c) k v now = WithRefreshAfterWrite d (Put c k v now)"
  by (simp add: Put_def WithRefreshAfterWrite_def newEntry_def setWriteTime_def setAccessTime_def
      setValue_def cache_getOrSet_def Let_def split: option.splits prod.splits)

lemma raw_Invalidate:
  "Invalidate (WithRefreshAfterWrite d c) k = WithRefreshAfterWrite d (Invalidate c k)"
  by (simp add: Invalidate_def WithRefreshAfterWrite_def setInvalidated_def Let_def
      split: option.splits)

lemma raw_load:
  "load (WithRefreshAfterWrite d c) k t1 t2 =
     (fst (load c k t1 t2), WithRefreshAfterWrite d (snd (load c k t1 t2)))"
  by (simp add: load_def WithRefreshAfterWrite_def newEntry_def setWriteTime_def setAccessTime_def
      record_stat_def Let_def split: option.splits prod.splits)

lemma raw_refresh:
  "refresh (WithRefreshAfterWrite d c) en t1 t2 =
     (fst (refresh c en t1 t2), WithRefreshAfterWrite d (snd (refresh c en t1 t2)))"
  by (simp add: refresh_def WithRefreshAfterWrite_def setLoading_def setValue_def setWriteTime_def
      record_stat_def Let_def split: option.splits prod.splits)

lemma raw_setLoading:
  "setLoading en b (WithRefreshAfterWrite d c) =
     (fst (setLoading en b c), WithRefreshAfterWrite d (snd (setLoading en b c)))"
  by (simp add: setLoading_def WithRefreshAfterWrite_def)

lemma raw_refreshAsync:
  "refreshAsync (WithRefreshAfterWrite d c) en tm =
     (fst (refreshAsync c en tm), WithRefreshAfterWrite d (snd (refreshAsync c en tm)))"
proof (cases tm)
  case Later
  then show ?thesis
    by (simp add: refreshAsync_def WithRefreshAfterWrite_def setLoading_def Let_def)
next
  case (Inline start now)
  then show ?thesis
    by (simp add: refreshAsync_def raw_fields raw_setLoading raw_refresh Let_def
        split: prod.splits)
qed

lemma loader_record_stat: "loader (record_stat s c) = loader c"
  by (simp add: record_stat_def)

lemma raw_Get:
  "Get (WithRefreshAfterWrite d c) k t1 t2 tm =
     (fst (Get c k t1 t2 tm), WithRefreshAfterWrite d (snd (Get c k t1 t2 tm)))"
proof (cases "cache_get (cache c) k")
  case None
  then show ?thesis
    by (simp add: Get_def raw_fields raw_load)
next
  case present: (Some en)
  show ?thesis
  proof (cases "isExpired c en t1")
    case False
    with present show ?thesis
      by (simp add: Get_def raw_fields Let_def) (simp add: WithRefreshAfterWrite_def)
  next
    case True
    show ?thesis
    proof (cases "loader c")
      case None
      with present True show ?thesis
        by (simp add: Get_def raw_fields Let_def record_stat_def)
          (simp add: WithRefreshAfterWrite_def)
    next
      case (Some f)
      let ?c2 = "setAccessTime en t1 (record_stat (RecordMisses 1) c)"
      obtain x c3 where r: "refreshAsync ?c2 en tm = (x, c3)"
        by (cases "refreshAsync ?c2 en tm")
      have r': "refreshAsync (WithRefreshAfterWrite d ?c2) en tm = (x, WithRefreshAfterWrite d c3)"
        using raw_refreshAsync [of d ?c2 en tm] r by simp
      show ?thesis
        using Some present True r r'
        by (cases x) (simp_all add: Get_def raw_fields loader_record_stat Let_def)
    qed
  qed
qed

lemma raw_Refresh:
  "Refresh (WithRefreshAfterWrite d c) k t1 t2 tm =
     (fst (Refresh c k t1 t2 tm), WithRefreshAfterWrite d (snd (Refresh c k t1 t2 tm)))"
  by (simp add: Refresh_def raw_fields raw_refreshAsync raw_load
      split: option.splits prod.splits sum.splits failure.splits)

text \<open>
  Claim C7: no operation reads \<open>refreshAfterWrite\<close>. Each of \<open>GetIfPresent\<close>, \<open>Put\<close>,
  \<open>Invalidate\<close>, \<open>Get\<close>, \<open>Refresh\<close> and the refresh closure returns the same result
  and leaves the same state, whatever duration \<open>d\<close> the option \<open>WithRefreshAfterWrite\<close>
  has set and whenever a started closure runs; the state differs in that field alone. A refresh is started from \<open>Get\<close> for
  an expired entry only: on a present entry that is not expired \<open>Get\<close> starts none,
  whatever \<open>needRefresh\<close> would say.
\<close>

theorem refreshAfterWrite_unused:
  "GetIfPresent (WithRefreshAfterWrite d c) k t1 =
     (fst (GetIfPresent c k t1), WithRefreshAfterWrite d (snd (GetIfPresent c k t1)))
   \<and> Put (WithRefreshAfterWrite d c) k v t1 = WithRefreshAfterWrite d (Put c k v t1)
   \<and> Invalidate (WithRefreshAfterWrite d c) k = WithRefreshAfterWrite d (Invalidate c k)
   \<and> Get (WithRefreshAfterWrite d c) k t1 t2 tm =
       (fst (Get c k t1 t2 tm), WithRefreshAfterWrite d (snd (Get c k t1 t2 tm)))
   \<and> Refresh (WithRefreshAfterWrite d c) k t1 t2 tm =
       (fst (Refresh c k t1 t2 tm), WithRefreshAfterWrite d (snd (Refresh c k t1 t2 tm)))
   \<and> refresh (WithRefreshAfterWrite d c) en t1 t2 =
       (fst (refresh c en t1 t2), WithRefreshAfterWrite d (snd (refresh c en t1 t2)))
   \<and> (cache_get (cache c) k = Some en \<and> \<not> isExpired c en t1 \<longrightarrow>
        tasks (snd (Get c k t1 t2 tm)) = tasks c)"
proof -
  have "tasks (snd (Get c k t1 t2 tm)) = tasks c"
    if "cache_get (cache c) k = Some en" and "\<not> isExpired c en t1"
    using that by (simp add: Get_def Let_def record_stat_def setAccessTime_def)
  then show ?thesis
    by (simp only: raw_GetIfPresent raw_Put raw_Invalidate raw_Get raw_Refresh raw_refresh) simp
qed

theorem refreshAfterWrite_unused_witness:
  "needRefresh (WithRefreshAfterWrite 1 (ex_cache\<lparr>loader := Some ex_loader, expireAfterAccess := 0\<rparr>)) 0 1000
   \<and> \<not> needRefresh (ex_cache\<lparr>loader := Some ex_loader, expireAfterAccess := 0\<rparr>) 0 1000
   \<and> Get (WithRefreshAfterWrite 1 (ex_cache\<lparr>loader := Some ex_loader, expireAfterAccess := 0\<rparr>)) 1 1000 1001 Later =
       (Inr 10,
        ex_cache\<lparr>loader := Some ex_loader, expireAfterAccess := 0, refreshAfterWrite := 1,
          stats := [RecordHits 1], hitEntry := [0],
          heap := (\<lambda>a. ex_entry)(0 := ex_entry\<lparr>accessTime := 1000\<rparr>)\<rparr>)
   \<and> tasks (snd (Get (ex_cache\<lparr>loader := Some ex_loader, expireAfterAccess := 0\<rparr>) 1 1000 1001 Later)) = []"
proof -
  let ?c = "ex_cache\<lparr>loader := Some ex_loader, expireAfterAccess := 0\<rparr>"
  have g: "Get ?c 1 1000 1001 Later =
       (Inr 10,
        ex_cache\<lparr>loader := Some ex_loader, expireAfterAccess := 0,
          stats := [RecordHits 1], hitEntry := [0],
          heap := (\<lambda>a. ex_entry)(0 := ex_entry\<lparr>accessTime := 1000\<rparr>)\<rparr>)"
    by (simp add: Get_def ex_cache_def ex_entry_def cache_get_def isExpired_def record_stat_def
        setAccessTime_def Let_def)
  have n: "needRefresh (WithRefreshAfterWrite 1 ?c) 0 1000" "\<not> needRefresh ?c 0 1000"
    by (simp_all add: needRefresh_def WithRefreshAfterWrite_def ex_cache_def ex_entry_def)
  have p: "cache_get (cache ?c) 1 = Some 0 \<and> \<not> isExpired ?c 0 1000"
    by (simp add: ex_cache_def ex_entry_def cache_get_def isExpired_def)
  note u = refreshAfterWrite_unused [of 1 ?c 1 1000 20 1001 Later 0]
  have a: "Get (WithRefreshAfterWrite 1 ?c) 1 1000 1001 Later =
       (fst (Get ?c 1 1000 1001 Later), WithRefreshAfterWrite 1 (snd (Get ?c 1 1000 1001 Later)))"
    by (rule u [THEN conjunct2, THEN conjunct2, THEN conjunct2, THEN conjunct1])
  have b: "tasks (snd (Get ?c 1 1000 1001 Later)) = tasks ?c"
    by (rule u [THEN conjunct2, THEN conjunct2, THEN conjunct2, THEN conjunct2,
          THEN conjunct2, THEN conjunct2, THEN mp, OF p])
  have a': "Get (WithRefreshAfterWrite 1 ?c) 1 1000 1001 Later =
       (Inr 10,
        ex_cache\<lparr>loader := Some ex_loader, expireAfterAccess := 0, refreshAfterWrite := 1,
          stats := [RecordHits 1], hitEntry := [0],
          heap := (\<lambda>a. ex_entry)(0 := ex_entry\<lparr>accessTime := 1000\<rparr>)\<rparr>)"
    unfolding a g by (simp add: WithRefreshAfterWrite_def ex_cache_def)
  have b': "tasks (snd (Get ?c 1 1000 1001 Later)) = []"
    unfolding b by (simp add: ex_cache_def)
  show ?thesis using n a' b' by (intro conjI)
qed

subsection \<open>The sweep of expired entries\<close>

lemma cache_delete_fields:
  "heap (cache_delete en c) = heap c"
  "entries (cache_delete en c) = entries c"
  "stats (cache_delete en c) = stats c"
  "removalCalls (cache_delete en c) = removalCalls c"
  "onRemoval (cache_delete en c) = onRemoval c"
  by (simp_all add: cache_delete_def)

lemma cache_delete_cong:
  "cache c1 = cache c2 \<Longrightarrow> heap c1 = heap c2 \<Longrightarrow>
   cache (cache_delete en c1) = cache (cache_delete en c2)"
  by (simp add: cache_delete_def)

lemma cache_fold_delete_cong:
  "cache c1 = cache c2 \<Longrightarrow> heap c1 = heap c2 \<Longrightarrow>
   cache (fold cache_delete xs c1) = cache (fold cache_delete xs c2)"
proof (induction xs arbitrary: c1 c2)
  case Nil
  then show ?case by simp
next
  case (Cons a xs)
  have "cache (cache_delete a c1) = cache (cache_delete a c2)"
    using Cons.prems by (rule cache_delete_cong)
  moreover have "heap (cache_delete a c1) = heap (cache_delete a c2)"
    using Cons.prems by (simp add: cache_delete_fields)
  ultimately show ?case using Cons.IH by simp
qed

lemma filter_removeAll_notin:
  "filter (\<lambda>a. a \<notin> set ys) (removeAll en xs) = filter (\<lambda>a. a \<notin> set (en # ys)) xs"
  by (induction xs) auto

lemma removeAll_notin:
  "removeAll en xs = filter (\<lambda>a. a \<notin> set [en]) xs"
  by (induction xs) auto

lemma remove_present:
  assumes "en \<in> set (entries c)"
  shows "remove c en =
     c\<lparr>entries := removeAll en (entries c),
       cache := cache (cache_delete en c),
       removalCalls := removalCalls c @
         (if onRemoval c then [(key (heap c en), val (heap c en))] else [])\<rparr>"
  using assms by (simp add: remove_def policy_remove_def cache_delete_def)

lemma walk_expire:
  assumes "distinct ens" and "set ens \<subseteq> set (entries c)" and "0 < remain"
  shows "snd (walkAccess (expire_visit x) ens (remain, c)) =
     c\<lparr>entries := filter (\<lambda>a. a \<notin> set (take (nat remain) (takeWhile (\<lambda>en. accessTime (heap c en) < x) ens))) (entries c),
       cache := cache (fold cache_delete (take (nat remain) (takeWhile (\<lambda>en. accessTime (heap c en) < x) ens)) c),
       stats := stats c @ replicate (length (take (nat remain) (takeWhile (\<lambda>en. accessTime (heap c en) < x) ens))) RecordEviction,
       removalCalls := removalCalls c @
         (if onRemoval c
          then map (\<lambda>en. (key (heap c en), val (heap c en)))
                 (take (nat remain) (takeWhile (\<lambda>en. accessTime (heap c en) < x) ens))
          else [])\<rparr>"
  using assms
proof (induction ens arbitrary: remain c)
  case Nil
  then show ?case by simp
next
  case (Cons en ens)
  show ?case
  proof (cases "accessTime (heap c en) < x")
    case False
    then show ?thesis by (simp add: expire_visit_def)
  next
    case True
    let ?c2 = "record_stat RecordEviction (remove c en)"
    have en: "en \<in> set (entries c)" using Cons.prems by simp
    have c2: "?c2 =
       c\<lparr>entries := removeAll en (entries c),
         cache := cache (cache_delete en c),
         stats := stats c @ [RecordEviction],
         removalCalls := removalCalls c @
           (if onRemoval c then [(key (heap c en), val (heap c en))] else [])\<rparr>"
      by (simp add: remove_present [OF en] record_stat_def)
    have tk: "take (nat remain) (en # ys) = en # take (nat (remain - 1)) ys" for ys :: "addr list"
      using Cons.prems(3) by (cases "nat remain") (simp_all add: nat_diff_distrib)
    show ?thesis
    proof (cases "remain - 1 > 0")
      case False
      with Cons.prems(3) have "remain = 1" by simp
      with True show ?thesis
        by (simp add: expire_visit_def Let_def c2 removeAll_notin cache_delete_fields)
    next
      case r: True
      have d: "distinct ens" and s: "set ens \<subseteq> set (entries ?c2)"
        using Cons.prems by (auto simp add: c2)
      have h: "heap ?c2 = heap c" by (simp add: c2)
      have cc: "cache (fold cache_delete ys ?c2) = cache (fold cache_delete ys (cache_delete en c))"
        for ys
        by (rule cache_fold_delete_cong) (simp_all add: c2 cache_delete_fields)
      have "snd (walkAccess (expire_visit x) (en # ens) (remain, c)) =
            snd (walkAccess (expire_visit x) ens (remain - 1, ?c2))"
        using True r by (simp add: expire_visit_def Let_def)
      also note Cons.IH [OF d s r]
      finally show ?thesis
        using True
        by (simp add: tk h cc) (simp add: c2 filter_removeAll_notin)
    qed
  qed
qed

lemma filter_notin_take:
  assumes "distinct xs"
  shows "filter (\<lambda>a. a \<notin> set (take m xs)) xs = drop m xs"
proof -
  have d: "distinct (take m xs @ drop m xs)" using assms by simp
  then have "set (take m xs) \<inter> set (drop m xs) = {}" by (simp only: distinct_append)
  then have "filter (\<lambda>a. a \<notin> set (take m xs)) (drop m xs) = drop m xs"
    by (auto simp add: filter_id_conv)
  moreover have "filter (\<lambda>a. a \<notin> set (take m xs)) (take m xs) = []"
    by (simp add: filter_empty_conv)
  ultimately have "filter (\<lambda>a. a \<notin> set (take m xs)) (take m xs @ drop m xs) = drop m xs"
    by (simp only: filter_append append_Nil)
  then show ?thesis by simp
qed

lemma take_takeWhile_prefix:
  "take n (takeWhile P xs) = take (length (take n (takeWhile P xs))) xs"
proof -
  have "take n (takeWhile P xs) = take n (take (length (takeWhile P xs)) xs)"
    using takeWhile_eq_take [of P xs] by simp
  then show ?thesis by (simp add: min_def)
qed

text \<open>
  Claim C6: \<open>expireEntries\<close> changes nothing when \<open>expireAfterAccess \<le> 0\<close>. Otherwise
  it goes through the policy's entries in the policy's access order (no entry twice)
  and removes the longest run of leading entries whose access time is below
  \<open>now - expireAfterAccess\<close>, but at most 16 of them: these leave the policy's order
  and the hash table, the removal listener (when one is set) is called for each in
  turn, and one eviction is recorded for each. The walk stops at the first entry at or
  above the cutoff, or after the sixteenth removal.
\<close>

theorem expireEntries_sweep:
  assumes "distinct (entries c)"
  shows "(expireAfterAccess c \<le> 0 \<longrightarrow> expireEntries c now = c)
     \<and> (0 < expireAfterAccess c \<longrightarrow>
          (let xs = take 16 (takeWhile (\<lambda>en. accessTime (heap c en) < now - expireAfterAccess c)
                               (entries c))
           in expireEntries c now =
                c\<lparr>entries := drop (length xs) (entries c),
                  cache := cache (fold cache_delete xs c),
                  stats := stats c @ replicate (length xs) RecordEviction,
                  removalCalls := removalCalls c @
                    (if onRemoval c then map (\<lambda>en. (key (heap c en), val (heap c en))) xs
                     else [])\<rparr>))"
proof -
  let ?xs = "take 16 (takeWhile (\<lambda>en. accessTime (heap c en) < now - expireAfterAccess c)
                        (entries c))"
  have e: "?xs = take (length ?xs) (entries c)"
    by (rule take_takeWhile_prefix)
  have s: "set (take (length ?xs) (entries c)) = set ?xs"
    by (rule arg_cong [of _ _ set, OF e [symmetric]])
  have "filter (\<lambda>a. a \<notin> set (take (length ?xs) (entries c))) (entries c) =
        drop (length ?xs) (entries c)"
    by (rule filter_notin_take [OF assms])
  then have "filter (\<lambda>a. a \<notin> set ?xs) (entries c) = drop (length ?xs) (entries c)"
    by (simp only: s)
  then show ?thesis
    using walk_expire [OF assms subset_refl, of 16 "now - expireAfterAccess c"]
    by (simp add: expireEntries_def drainMax_def Let_def)
qed

theorem expireEntries_sweep_witness:
  "expireEntries (ex_sweep\<lparr>expireAfterAccess := 0\<rparr>) 100 = ex_sweep\<lparr>expireAfterAccess := 0\<rparr>
   \<and> expireEntries ex_sweep 100 =
       ex_sweep\<lparr>entries := [2], cache := [(1, 2)],
         stats := [RecordEviction, RecordEviction], removalCalls := [(7, 10), (8, 10)]\<rparr>
   \<and> entries (expireEntries ex_full 1000) = [16]
   \<and> length (stats (expireEntries ex_full 1000)) = 16"
proof -
  have d: "distinct (entries (ex_sweep\<lparr>expireAfterAccess := 0\<rparr>))" "distinct (entries ex_sweep)"
    "distinct (entries ex_full)"
    by (simp_all add: ex_sweep_def ex_full_def)
  have a: "expireEntries (ex_sweep\<lparr>expireAfterAccess := 0\<rparr>) 100 = ex_sweep\<lparr>expireAfterAccess := 0\<rparr>"
    using expireEntries_sweep [OF d(1), of 100] by simp
  have b: "expireEntries ex_sweep 100 =
       ex_sweep\<lparr>entries := [2], cache := [(1, 2)],
         stats := [RecordEviction, RecordEviction], removalCalls := [(7, 10), (8, 10)]\<rparr>"
    using expireEntries_sweep [OF d(2), of 100]
    by (simp add: ex_sweep_def ex_cache_def ex_entry_def cache_delete_def Let_def)
  have c: "entries (expireEntries ex_full 1000) = [16]
           \<and> length (stats (expireEntries ex_full 1000)) = 16"
    using expireEntries_sweep [OF d(3), of 1000]
    by (simp add: ex_full_def ex_cache_def ex_entry_def Let_def)
  show ?thesis using a b c by simp
qed

subsection \<open>At most one refresh in flight\<close>

text \<open>
  Along every run the closures of the entry in flight and the calls between their two
  actions number one when the \<open>loading\<close> flag is set and none when it is clear.
\<close>

lemma winners_update:
  "i < length pcs \<Longrightarrow>
   winners (pcs[i := p]) + (if pcs ! i = Won then 1 else 0) =
   winners pcs + (if p = Won then 1 else 0)"
proof (induction pcs arbitrary: i)
  case Nil
  then show ?case by simp
next
  case (Cons q qs)
  show ?case
  proof (cases i)
    case 0
    then show ?thesis by (simp add: winners_def)
  next
    case (Suc m)
    with Cons.prems have "m < length qs" by simp
    from Cons.IH [OF this] Suc show ?thesis by (auto simp add: winners_def split: if_splits)
  qed
qed

lemma filter_without_nth:
  assumes "j < length xs"
  shows "length (filter P (take j xs @ drop (Suc j) xs)) + (if P (xs ! j) then 1 else 0) =
         length (filter P xs)"
proof -
  have "length (filter P xs) = length (filter P (take j xs @ xs ! j # drop (Suc j) xs))"
    using id_take_nth_drop [OF assms] by simp
  then show ?thesis by simp
qed

lemma refresh_loading:
  "loading (heap (snd (refresh c a t1 t2)) b) = (if b = a then False else loading (heap c b))"
  by (simp add: refresh_def setLoading_def setValue_def setWriteTime_def record_stat_def
      Let_def split: option.splits prod.splits)

lemma refresh_tasks:
  "tasks (snd (refresh c a t1 t2)) = tasks c"
  by (simp add: refresh_def setLoading_def setValue_def setWriteTime_def record_stat_def
      Let_def split: option.splits prod.splits)

lemma step_inv:
  assumes "i < length pcs"
    and "inflight en c + winners pcs = (if loading (heap c en) then 1 else 0)"
    and "refreshAsync_step en c (pcs ! i) = (c', p')"
  shows "inflight en c' + winners (pcs[i := p']) = (if loading (heap c' en) then 1 else 0)"
proof (cases "pcs ! i")
  case Calling
  with assms(3) have "(c' = c \<and> p' = Returned)
      \<or> (\<not> loading (heap c en) \<and> p' = Won \<and> tasks c' = tasks c \<and> loading (heap c' en))"
    by (auto simp add: refreshAsync_step_def setLoading_def Let_def split: if_splits)
  then show ?thesis
    using winners_update [OF assms(1), of p'] assms(2) Calling
    by (auto simp add: inflight_def split: if_splits)
next
  case Won
  with assms(3) have "p' = Returned" and "inflight en c' = Suc (inflight en c)"
    and "loading (heap c' en) = loading (heap c en)"
    by (auto simp add: refreshAsync_step_def inflight_def)
  then show ?thesis
    using winners_update [OF assms(1), of p'] assms(2) Won
    by (auto split: if_splits)
next
  case Returned
  with assms(3) have "c' = c" and "p' = Returned"
    by (auto simp add: refreshAsync_step_def)
  then show ?thesis
    using winners_update [OF assms(1), of p'] assms(2) Returned by simp
qed

lemma finish_inv:
  assumes "j < length (tasks c)"
    and "inflight en c + winners pcs = (if loading (heap c en) then 1 else 0)"
  shows "inflight en (snd (refresh (c\<lparr>tasks := take j (tasks c) @ drop (Suc j) (tasks c)\<rparr>)
                            (snd (tasks c ! j)) t1 t2))
         + winners pcs =
         (if loading (heap (snd (refresh (c\<lparr>tasks := take j (tasks c) @ drop (Suc j) (tasks c)\<rparr>)
                            (snd (tasks c ! j)) t1 t2)) en) then 1 else 0)"
proof -
  let ?c1 = "c\<lparr>tasks := take j (tasks c) @ drop (Suc j) (tasks c)\<rparr>"
  let ?a = "snd (tasks c ! j)"
  have f: "inflight en ?c1 + (if ?a = en then 1 else 0) = inflight en c"
    using filter_without_nth [OF assms(1), of "\<lambda>t. snd t = en"] by (simp add: inflight_def)
  have t: "inflight en (snd (refresh ?c1 ?a t1 t2)) = inflight en ?c1"
    by (simp add: inflight_def refresh_tasks)
  have l: "loading (heap (snd (refresh ?c1 ?a t1 t2)) en) =
           (if en = ?a then False else loading (heap c en))"
    by (simp add: refresh_loading)
  show ?thesis
    unfolding t l using f assms(2) by (auto split: if_splits)
qed

lemma run_events_inv:
  assumes "inflight en c + winners pcs = (if loading (heap c en) then 1 else 0)"
  shows "inflight en (fst (run_events en evs (c, pcs))) + winners (snd (run_events en evs (c, pcs))) =
         (if loading (heap (fst (run_events en evs (c, pcs))) en) then 1 else 0)"
  using assms
proof (induction evs arbitrary: c pcs)
  case Nil
  then show ?case by simp
next
  case (Cons ev evs)
  show ?case
  proof (cases ev)
    case (Step i)
    show ?thesis
    proof (cases "i < length pcs")
      case True
      obtain c' p' where s: "refreshAsync_step en c (pcs ! i) = (c', p')"
        by (cases "refreshAsync_step en c (pcs ! i)")
      from Cons.IH [OF step_inv [OF True Cons.prems s]] Step True s
      show ?thesis by simp
    next
      case False
      with Cons.IH [OF Cons.prems] Step show ?thesis by simp
    qed
  next
    case (Finish j t1 t2)
    show ?thesis
    proof (cases "j < length (tasks c)")
      case True
      from Cons.IH [OF finish_inv [OF True Cons.prems]] Finish True
      show ?thesis by simp
    next
      case False
      with Cons.IH [OF Cons.prems] Finish show ?thesis by simp
    qed
  qed
qed

lemma winners_replicate: "winners (replicate n Calling) = 0"
  by (simp add: winners_def)

lemma refreshAsync_steps:
  "snd (refreshAsync c en Later) =
     fst (refreshAsync_step en (fst (refreshAsync_step en c Calling))
            (snd (refreshAsync_step en c Calling)))"
  by (simp add: refreshAsync_def refreshAsync_step_def setLoading_def Let_def)

lemma refreshAsync_inline_run:
  assumes "loader c \<noteq> None"
  shows "snd (refreshAsync c en (Inline start now)) =
     fst (run_events en [Step 0, Step 0, Finish (length (tasks c)) start now] (c, [Calling]))"
proof -
  from assms obtain f where f: "loader c = Some f" by auto
  show ?thesis
  proof (cases "loading (heap c en)")
    case True
    with f show ?thesis
      by (simp add: refreshAsync_def refreshAsync_step_def setLoading_def)
  next
    case False
    with f show ?thesis
      by (simp add: refreshAsync_def refreshAsync_step_def setLoading_def)
  qed
qed

text \<open>
  Claim C8: goroutines calling \<open>refreshAsync\<close> on one entry, interleaved in any order
  with each other and with the completion of started closures, never have more than
  one refresh closure of that entry in flight: a second one is started only after the
  first has finished. The start state has the \<open>loading\<close> flag set iff one closure of
  the entry is in flight. A call starts the closure exactly when its \<open>setLoading(true)\<close>
  moves the flag from false to true, it does nothing when the flag is already set, and
  \<open>refresh\<close> leaves the flag cleared. The last two conjuncts tie the interleaved
  actions to the function: the two actions done one after the other are \<open>refreshAsync\<close>
  with the closure still to run, and followed by the closure's completion they are
  \<open>refreshAsync\<close> with the closure run within the call.
\<close>

theorem refreshAsync_at_most_one:
  assumes "inflight en c = (if loading (heap c en) then 1 else 0)"
  shows "inflight en (fst (run_events en evs (c, replicate n Calling))) \<le> 1
     \<and> (loader c \<noteq> None \<and> \<not> loading (heap c en) \<longrightarrow>
          refreshAsync c en Later =
            (Inr (), c\<lparr>heap := (heap c)(en := (heap c en)\<lparr>loading := True\<rparr>),
                       tasks := tasks c @ [(if exec c then Executor else Goroutine, en)]\<rparr>))
     \<and> (loader c \<noteq> None \<and> loading (heap c en) \<longrightarrow> refreshAsync c en tm = (Inr (), c))
     \<and> \<not> loading (heap (snd (refresh c en t1 t2)) en)
     \<and> snd (refreshAsync c en Later) =
         fst (refreshAsync_step en (fst (refreshAsync_step en c Calling))
                (snd (refreshAsync_step en c Calling)))
     \<and> (loader c \<noteq> None \<longrightarrow>
          snd (refreshAsync c en (Inline t1 t2)) =
            fst (run_events en [Step 0, Step 0, Finish (length (tasks c)) t1 t2] (c, [Calling])))"
proof -
  have "inflight en c + winners (replicate n Calling) = (if loading (heap c en) then 1 else 0)"
    using assms by (simp add: winners_replicate)
  from run_events_inv [OF this, of evs]
  have "inflight en (fst (run_events en evs (c, replicate n Calling))) \<le> 1"
    by (simp split: if_splits)
  moreover have "loader c \<noteq> None \<and> \<not> loading (heap c en) \<longrightarrow>
          refreshAsync c en Later =
            (Inr (), c\<lparr>heap := (heap c)(en := (heap c en)\<lparr>loading := True\<rparr>),
                       tasks := tasks c @ [(if exec c then Executor else Goroutine, en)]\<rparr>)"
    by (simp add: refreshAsync_def setLoading_def)
  moreover have "loader c \<noteq> None \<and> loading (heap c en) \<longrightarrow> refreshAsync c en tm = (Inr (), c)"
    by (simp add: refreshAsync_def setLoading_def)
  moreover have "\<not> loading (heap (snd (refresh c en t1 t2)) en)"
    by (simp add: refresh_loading)
  moreover have "loader c \<noteq> None \<longrightarrow>
          snd (refreshAsync c en (Inline t1 t2)) =
            fst (run_events en [Step 0, Step 0, Finish (length (tasks c)) t1 t2] (c, [Calling]))"
    by (simp add: refreshAsync_inline_run)
  ultimately show ?thesis
    using refreshAsync_steps [of c en] by (intro conjI)
qed

theorem refreshAsync_at_most_one_witness:
  "tasks (fst (run_events 0 [Step 0, Step 1, Step 1, Step 0]
                 (ex_cache\<lparr>loader := Some ex_loader\<rparr>, [Calling, Calling]))) = [(Goroutine, 0)]
   \<and> inflight 0 (fst (run_events 0 [Step 0, Step 1, Step 1, Step 0]
                 (ex_cache\<lparr>loader := Some ex_loader\<rparr>, [Calling, Calling]))) \<le> 1
   \<and> tasks (fst (run_events 0 [Step 0, Step 0, Finish 0 1000 1001, Step 1, Step 1]
                 (ex_cache\<lparr>loader := Some ex_loader\<rparr>, [Calling, Calling]))) = [(Goroutine, 0)]
   \<and> \<not> loading (heap (snd (refresh (ex_cache\<lparr>loader := Some ex_loader\<rparr>) 0 1000 1001)) 0)"
proof -
  let ?c = "ex_cache\<lparr>loader := Some ex_loader\<rparr>"
  have i: "inflight 0 ?c = (if loading (heap ?c 0) then 1 else 0)"
    by (simp add: inflight_def ex_cache_def ex_entry_def)
  note u = refreshAsync_at_most_one [OF i, of "[Step 0, Step 1, Step 1, Step 0]" "Suc (Suc 0)"
      Later 1000 1001]
  have a: "inflight 0 (fst (run_events 0 [Step 0, Step 1, Step 1, Step 0] (?c, [Calling, Calling]))) \<le> 1"
    using u [THEN conjunct1] by simp
  have b: "\<not> loading (heap (snd (refresh ?c 0 1000 1001)) 0)"
    by (rule u [THEN conjunct2, THEN conjunct2, THEN conjunct2, THEN conjunct1])
  have t1: "tasks (fst (run_events 0 [Step 0, Step 1, Step 1, Step 0] (?c, [Calling, Calling]))) =
            [(Goroutine, 0)]"
    by (simp add: refreshAsync_step_def setLoading_def ex_cache_def ex_entry_def)
  have t2: "tasks (fst (run_events 0 [Step 0, Step 0, Finish 0 1000 1001, Step 1, Step 1]
                 (?c, [Calling, Calling]))) = [(Goroutine, 0)]"
    by (simp add: refreshAsync_step_def setLoading_def refresh_def ex_cache_def ex_entry_def
        ex_loader_def setValue_def setWriteTime_def record_stat_def Let_def)
  show ?thesis using t1 a t2 b by (intro conjI)
qed

end
